theory Spec2Isabelle
  imports Complex_Main
begin

section \<open>Data model of script.py\<close>

text \<open>
  Time. A naive \<^verbatim>\<open>datetime\<close> is the number of microseconds since the start of the
  calendar (\<^verbatim>\<open>datetime.min\<close> is 0, \<^verbatim>\<open>datetime.max\<close> is 315537897599999999), a
  \<^verbatim>\<open>timedelta\<close> a signed number of microseconds; comparison and subtraction of naive
  datetimes are comparison and subtraction of these integers.

  \<^verbatim>\<open>td.total_seconds()\<close> is the float nearest to the microseconds divided by
  \<open>10^6\<close> (the true division of two Python integers is correctly rounded, ties to the
  even mantissa), and \<^verbatim>\<open>int\<close> truncates it towards zero. \<open>true_div_int n d\<close> is this
  truncated float for \<open>n \<ge> 0\<close>, in integer arithmetic: with \<open>2^e \<le> n / d < 2^(e+1)\<close>
  the float is the multiple of \<open>2^(e-52)\<close> nearest to \<open>n / d\<close>. A quotient below 1
  gives a float below 1, hence 0.
\<close>

type_synonym datetime = int
type_synonym timedelta = int

function bit_length :: "int \<Rightarrow> nat" where
  "bit_length n = (if n \<le> 0 then 0 else Suc (bit_length (n div 2)))"
  by pat_completeness auto
termination
  by (relation "measure nat") auto

declare bit_length.simps [simp del]

definition round_half_even :: "int \<Rightarrow> int \<Rightarrow> int" where
  "round_half_even a b =
     (let q = a div b; r = a mod b
      in if 2 * r < b then q else if b < 2 * r then q + 1 else if even q then q else q + 1)"

definition true_div_int :: "int \<Rightarrow> int \<Rightarrow> int" where
  "true_div_int n d =
     (let s = n div d
      in if s = 0 then 0
         else let e = bit_length s - 1
              in if e \<le> 52 then round_half_even (n * 2 ^ (52 - e)) d div 2 ^ (52 - e)
                 else round_half_even n (d * 2 ^ (e - 52)) * 2 ^ (e - 52))"

definition total_seconds_int :: "timedelta \<Rightarrow> int" where
  "total_seconds_int td =
     (if 0 \<le> td then true_div_int td 1000000 else - true_div_int (- td) 1000000)"

definition seconds :: "int \<Rightarrow> timedelta" where
  "seconds n = n * 1000000"

text \<open>
  Strings. A \<^typ>\<open>char\<close> stands for a code point below 256; on these
  \<^verbatim>\<open>str.strip()\<close> removes the code points for which \<^verbatim>\<open>str.isspace\<close> holds
  and \<^verbatim>\<open>str.lower()\<close> maps \<open>A\<close>..\<open>Z\<close> and the accented capitals
  \<open>0xC0\<close>..\<open>0xDE\<close> (without \<open>0xD7\<close>) to the letter 32 places further on.
\<close>

definition isspace :: "char \<Rightarrow> bool" where
  "isspace c =
     (let n = (of_char c :: nat)
      in (9 \<le> n \<and> n \<le> 13) \<or> (28 \<le> n \<and> n \<le> 32) \<or> n = 133 \<or> n = 160)"

definition strip :: "string \<Rightarrow> string" where
  "strip s = rev (dropWhile isspace (rev (dropWhile isspace s)))"

definition lower_char :: "char \<Rightarrow> char" where
  "lower_char c =
     (let n = (of_char c :: nat)
      in if (65 \<le> n \<and> n \<le> 90) \<or> (192 \<le> n \<and> n \<le> 222 \<and> n \<noteq> 215)
         then char_of (n + 32) else c)"

definition lower :: "string \<Rightarrow> string" where
  "lower s = map lower_char s"

text \<open>
  An event is the dict that \<^verbatim>\<open>load_schedule\<close> builds. The key \<^verbatim>\<open>'type'\<close> is read
  with \<^verbatim>\<open>.get('type') or ''\<close>, so it may be absent or \<^verbatim>\<open>None\<close>; the keys
  \<^verbatim>\<open>'start'\<close> and \<^verbatim>\<open>'end'\<close> are read by subscript and are always there.
  Such a dict is never empty, hence truthy.
\<close>

record event =
  track :: "string option"
  date :: int
  etype :: "string option"
  start :: datetime
  endt :: datetime
  speaker :: string
  title :: string
  synopsis :: string

datatype mode = Normal | Pre_start | In_talk | Mode_none

text \<open>
  The returned dict. Its three event entries are references to dicts of the schedule;
  \<open>'e\<close> is what stands for such a reference: the event itself where only its value
  matters, its address where the identity of the object matters.
\<close>

record 'e display_state =
  mode :: mode
  current :: "'e option"
  next_event :: "'e option"
  following_event :: "'e option"
  seconds_to_start :: "int option"

datatype py_error = IndexError

text \<open>Subscript of a list by a non-negative index: out of range raises.\<close>

definition getitem :: "'a list \<Rightarrow> nat \<Rightarrow> py_error + 'a" where
  "getitem xs i = (if i < length xs then Inr (xs ! i) else Inl IndexError)"

section \<open>compute\_display\_state\<close>

text \<open>
  The \<^verbatim>\<open>for e in schedule\<close> loop, on the pair of the locals \<^verbatim>\<open>current\<close> and
  \<^verbatim>\<open>upcoming\<close>.
\<close>

fun scan :: "datetime \<Rightarrow> event list \<Rightarrow> event option \<times> event list \<Rightarrow> event option \<times> event list" where
  "scan now [] st = st"
| "scan now (e # es) (cur, upcoming) =
     scan now es
       (if start e \<le> now \<and> now < endt e then Some e else cur,
        if start e \<ge> now then upcoming @ [e] else upcoming)"

text \<open>
  \<^verbatim>\<open>(next_event.get('type') or '').strip().lower()\<close>: an absent key, \<^verbatim>\<open>None\<close> and
  the empty string all give the empty string.
\<close>

definition event_type :: "event \<Rightarrow> string" where
  "event_type e = lower (strip (case etype e of None \<Rightarrow> [] | Some t \<Rightarrow> t))"

definition none_state :: "'e display_state" where
  "none_state =
     \<lparr>mode = Mode_none, current = None, next_event = None,
      following_event = None, seconds_to_start = None\<rparr>"

text \<open>The part of the function after the two subscripts.\<close>

definition classify ::
  "datetime \<Rightarrow> event option \<Rightarrow> event option \<Rightarrow> event option \<Rightarrow> event display_state" where
  "classify now cur next_ev following_ev =
     (if cur = None \<and> next_ev = None then none_state
      else case cur of
        Some c \<Rightarrow>
          \<lparr>mode = In_talk, current = Some c, next_event = next_ev,
           following_event = following_ev, seconds_to_start = None\<rparr>
      | None \<Rightarrow>
          (case next_ev of
             None \<Rightarrow> none_state
           | Some n \<Rightarrow>
               (let delta = start n - now;
                    secs = total_seconds_int delta;
                    ty = event_type n
                in \<lparr>mode =
                       (if ty \<notin> {''break'', ''social''} \<and> secs \<le> 5 * 60
                        then Pre_start else Normal),
                     current = None, next_event = Some n,
                     following_event = following_ev,
                     seconds_to_start = Some (max secs 0)\<rparr>)))"

definition compute_display_state ::
  "event list \<Rightarrow> datetime \<Rightarrow> py_error + event display_state" where
  "compute_display_state schedule now =
     (case scan now schedule (None, []) of
        (cur, upcoming) \<Rightarrow>
          (case (if upcoming \<noteq> [] then map_sum id Some (getitem upcoming 0) else Inr None) of
             Inl err \<Rightarrow> Inl err
           | Inr next_ev \<Rightarrow>
               (case (if length upcoming > 1 then map_sum id Some (getitem upcoming 1)
                      else Inr None) of
                  Inl err \<Rightarrow> Inl err
                | Inr following_ev \<Rightarrow> Inr (classify now cur next_ev following_ev))))"

section \<open>compute\_display\_state on a heap of objects\<close>

text \<open>
  The same function with the objects it works on made explicit. A heap is the list of
  all objects; the address of an object is its index, and a new object is put at the end.
  The schedule is the address of a list of addresses of dicts, and the returned state
  holds addresses of dicts of the schedule. A read through an address that does not hold
  an object of the kind expected (which no Python program can produce) is
  \<open>BadReference\<close>. The function returns the heap it leaves behind.
\<close>

type_synonym addr = nat

datatype obj = Dict event | PyList "addr list"

type_synonym heap = "obj list"

datatype heap_error = Raised py_error | BadReference

definition alloc :: "heap \<Rightarrow> obj \<Rightarrow> addr \<times> heap" where
  "alloc h ob = (length h, h @ [ob])"

definition get_dict :: "heap \<Rightarrow> addr \<Rightarrow> heap_error + event" where
  "get_dict h a =
     (if a < length h then (case h ! a of Dict e \<Rightarrow> Inr e | PyList _ \<Rightarrow> Inl BadReference)
      else Inl BadReference)"

definition get_list :: "heap \<Rightarrow> addr \<Rightarrow> heap_error + addr list" where
  "get_list h a =
     (if a < length h then (case h ! a of PyList xs \<Rightarrow> Inr xs | Dict _ \<Rightarrow> Inl BadReference)
      else Inl BadReference)"

text \<open>\<^verbatim>\<open>l.append(x)\<close>: the only write of the function.\<close>

definition list_append :: "heap \<Rightarrow> addr \<Rightarrow> addr \<Rightarrow> heap_error + heap" where
  "list_append h l x =
     (case get_list h l of
        Inl err \<Rightarrow> Inl err
      | Inr xs \<Rightarrow> Inr (h[l := PyList (xs @ [x])]))"

text \<open>
  The \<^verbatim>\<open>for e in schedule\<close> loop as the list iterator runs it: at each step the
  length of the list is read again and the element at index \<open>i\<close> is taken. No result
  (\<open>None\<close>) stands for a loop that never ends.
\<close>

partial_function (option) scan_heap ::
  "datetime \<Rightarrow> addr \<Rightarrow> addr \<Rightarrow> nat \<Rightarrow> addr option \<Rightarrow> heap
     \<Rightarrow> ((heap_error + addr option) \<times> heap) option" where
  "scan_heap now schedule upcoming i cur h =
     (case get_list h schedule of
        Inl err \<Rightarrow> Some (Inl err, h)
      | Inr es \<Rightarrow>
          if i < length es then
            (case get_dict h (es ! i) of
               Inl err \<Rightarrow> Some (Inl err, h)
             | Inr e \<Rightarrow>
                 (case (if start e \<ge> now then list_append h upcoming (es ! i) else Inr h) of
                    Inl err \<Rightarrow> Some (Inl err, h)
                  | Inr h' \<Rightarrow>
                      scan_heap now schedule upcoming (i + 1)
                        (if start e \<le> now \<and> now < endt e then Some (es ! i) else cur) h'))
          else Some (Inr cur, h))"

definition classify_heap ::
  "heap \<Rightarrow> addr \<Rightarrow> datetime \<Rightarrow> addr option \<Rightarrow> heap_error + addr display_state" where
  "classify_heap h upcoming now cur =
     (case get_list h upcoming of
        Inl err \<Rightarrow> Inl err
      | Inr us \<Rightarrow>
     (case (if us \<noteq> [] then map_sum Raised Some (getitem us 0) else Inr None) of
        Inl err \<Rightarrow> Inl err
      | Inr next_ev \<Rightarrow>
     (case (if length us > 1 then map_sum Raised Some (getitem us 1) else Inr None) of
        Inl err \<Rightarrow> Inl err
      | Inr following_ev \<Rightarrow>
          if cur = None \<and> next_ev = None then Inr none_state
          else case cur of
            Some c \<Rightarrow>
              Inr \<lparr>mode = In_talk, current = Some c, next_event = next_ev,
                   following_event = following_ev, seconds_to_start = None\<rparr>
          | None \<Rightarrow>
              (case next_ev of
                 None \<Rightarrow> Inr none_state
               | Some n \<Rightarrow>
                   (case get_dict h n of
                      Inl err \<Rightarrow> Inl err
                    | Inr e \<Rightarrow>
                        (let delta = start e - now;
                             secs = total_seconds_int delta;
                             ty = event_type e
                         in Inr \<lparr>mode =
                                  (if ty \<notin> {''break'', ''social''} \<and> secs \<le> 5 * 60
                                   then Pre_start else Normal),
                                current = None, next_event = Some n,
                                following_event = following_ev,
                                seconds_to_start = Some (max secs 0)\<rparr>))))))"

text \<open>\<^verbatim>\<open>upcoming = []\<close> creates a new list object.\<close>

definition compute_display_state_heap ::
  "heap \<Rightarrow> addr \<Rightarrow> datetime \<Rightarrow> ((heap_error + addr display_state) \<times> heap) option" where
  "compute_display_state_heap h schedule now =
     (case alloc h (PyList []) of
        (upcoming, h1) \<Rightarrow>
          (case scan_heap now schedule upcoming 0 None h1 of
             None \<Rightarrow> None
           | Some (Inl err, h2) \<Rightarrow> Some (Inl err, h2)
           | Some (Inr cur, h2) \<Rightarrow> Some (classify_heap h2 upcoming now cur, h2)))"

section \<open>format\_timedelta and the minute warning\<close>

definition digit_char :: "nat \<Rightarrow> char" where
  "digit_char d = char_of (48 + d)"

fun decimal :: "nat \<Rightarrow> string" where
  "decimal n = (if n < 10 then [digit_char n] else decimal (n div 10) @ [digit_char (n mod 10)])"

declare decimal.simps [simp del]

text \<open>The format specification \<^verbatim>\<open>:02d\<close>: decimal, zero-padded to width two, sign included.\<close>

definition format_02d :: "int \<Rightarrow> string" where
  "format_02d n =
     (if n < 0 then CHR ''-'' # decimal (nat (- n))
      else let s = decimal (nat n) in if length s < 2 then CHR ''0'' # s else s)"

definition format_timedelta :: "timedelta \<Rightarrow> string" where
  "format_timedelta td =
     (let total = total_seconds_int td;
          total = (if total < 0 then 0 else total);
          hrs = total div 3600; rem = total mod 3600;
          mins = rem div 60; secs = rem mod 60
      in if hrs \<noteq> 0
         then format_02d hrs @ '':'' @ format_02d mins @ '':'' @ format_02d secs
         else format_02d mins @ '':'' @ format_02d secs)"

text \<open>
  From \<^verbatim>\<open>SpeakerDisplayApp.update\<close>, mode \<^verbatim>\<open>pre_start\<close>:
  \<^verbatim>\<open>secs = state['seconds_to_start'] or 0\<close> and
  \<^verbatim>\<open>minutes_remaining = max((secs + 59) // 60, 0)\<close>.
\<close>

definition minutes_remaining :: "int option \<Rightarrow> int" where
  "minutes_remaining seconds_to_start_v =
     (let secs = (case seconds_to_start_v of None \<Rightarrow> 0 | Some v \<Rightarrow> if v = 0 then 0 else v)
      in max ((secs + 59) div 60) 0)"

section \<open>Vocabulary of the specification\<close>

text \<open>
  An event is current when \<open>now\<close> lies in its half-open interval, and upcoming when it
  starts at \<open>now\<close> or later. A schedule is sorted when its start times ascend.
\<close>

definition is_current :: "datetime \<Rightarrow> event \<Rightarrow> bool" where
  "is_current now e = (start e \<le> now \<and> now < endt e)"

definition is_upcoming :: "datetime \<Rightarrow> event \<Rightarrow> bool" where
  "is_upcoming now e = (now \<le> start e)"

definition sorted_schedule :: "event list \<Rightarrow> bool" where
  "sorted_schedule schedule = sorted (map start schedule)"

text \<open>
  On a heap: the event a dict address holds, a well-formed schedule (a list object whose
  entries are addresses of dicts), the events of a schedule, and a state of addresses
  read as a state of events. \<open>expected_state\<close> is the state of addresses that the
  events at these addresses determine.
\<close>

definition deref :: "heap \<Rightarrow> addr \<Rightarrow> event option" where
  "deref h a = (case get_dict h a of Inr e \<Rightarrow> Some e | Inl _ \<Rightarrow> None)"

definition wf_schedule :: "heap \<Rightarrow> addr \<Rightarrow> addr list \<Rightarrow> bool" where
  "wf_schedule h schedule es =
     (get_list h schedule = Inr es \<and> list_all (\<lambda>a. deref h a \<noteq> None) es)"

definition events_of :: "heap \<Rightarrow> addr list \<Rightarrow> event list" where
  "events_of h es = List.map_filter (deref h) es"

definition deref_state :: "heap \<Rightarrow> addr display_state \<Rightarrow> event display_state" where
  "deref_state h r =
     \<lparr>mode = mode r, current = Option.bind (current r) (deref h),
      next_event = Option.bind (next_event r) (deref h),
      following_event = Option.bind (following_event r) (deref h),
      seconds_to_start = seconds_to_start r\<rparr>"

definition expected_state :: "(addr \<Rightarrow> event) \<Rightarrow> datetime \<Rightarrow> addr list \<Rightarrow> addr display_state" where
  "expected_state ev now es =
     (let cs = filter (\<lambda>a. is_current now (ev a)) es;
          us = filter (\<lambda>a. is_upcoming now (ev a)) es;
          c = (if cs = [] then None else Some (last cs));
          n = (if us = [] then None else Some (us ! 0));
          f = (if 1 < length us then Some (us ! 1) else None);
          p = classify now (map_option ev c) (map_option ev n) (map_option ev f)
      in \<lparr>mode = mode p, current = c, next_event = n, following_event = f,
           seconds_to_start = seconds_to_start p\<rparr>)"

section \<open>An example schedule\<close>

text \<open>
  Times of day are given in seconds after midnight: 32400 is 09:00, 34200 is 09:30,
  35100 is 09:45.
\<close>

definition mk_event :: "string \<Rightarrow> int \<Rightarrow> int \<Rightarrow> event" where
  "mk_event ty s e =
     \<lparr>track = None, date = 0, etype = Some ty, start = seconds s, endt = seconds e,
      speaker = [], title = [], synopsis = []\<rparr>"

definition talk_0900 :: event where "talk_0900 = mk_event ''Talk'' 32400 34200"
definition break_0930 :: event where "break_0930 = mk_event ''Break'' 34200 35100"
definition talk_0945 :: event where "talk_0945 = mk_event ''Talk'' 35100 36900"
definition panel_0910 :: event where "panel_0910 = mk_event ''Workshop'' 33000 36000"
definition zero_talk :: event where "zero_talk = mk_event ''Talk'' 35100 35100"
definition negative_talk :: event where "negative_talk = mk_event ''Talk'' 36000 35400"
definition late_break :: event where "late_break = mk_event '' bReAk  '' 37500 38400"

text \<open>An event that starts and ends at \<^verbatim>\<open>datetime.max\<close>.\<close>

definition far_event :: event where
  "far_event =
     \<lparr>track = None, date = 0, etype = Some ''Talk'', start = 315537897599999999,
      endt = 315537897599999999, speaker = [], title = [], synopsis = []\<rparr>"

definition example_heap :: heap where
  "example_heap = [Dict talk_0900, Dict break_0930, PyList [0, 1]]"

lemmas example_events = mk_event_def seconds_def talk_0900_def break_0930_def talk_0945_def
  panel_0910_def late_break_def

lemmas degenerate_events = mk_event_def seconds_def zero_talk_def negative_talk_def

lemma example_types:
  "event_type talk_0900 = ''talk''" "event_type talk_0945 = ''talk''"
  "event_type break_0930 = ''break''" "event_type late_break = ''break''"
  by code_simp+

section \<open>The truncated float\<close>

lemma bit_length_le: "n < 2 ^ j \<Longrightarrow> bit_length n \<le> j"
proof (induction n arbitrary: j rule: bit_length.induct)
  case (1 n)
  show ?case
  proof (cases "n \<le> 0")
    case True
    then show ?thesis by (simp add: bit_length.simps)
  next
    case False
    with "1.prems" obtain j' where j: "j = Suc j'"
      by (cases j) auto
    with "1.prems" have "n div 2 < 2 ^ j'" by auto
    from "1.IH" [OF False this] False j show ?thesis
      by (subst bit_length.simps) simp
  qed
qed

lemma bit_length_lower: "0 < n \<Longrightarrow> 2 ^ (bit_length n - 1) \<le> n"
proof (induction n rule: bit_length.induct)
  case (1 n)
  show ?case
  proof (cases "n div 2 \<le> 0")
    case True
    with "1.prems" have "n = 1" by auto
    then show ?thesis by (simp add: bit_length.simps)
  next
    case False
    then have p: "0 < n div 2" by simp
    from "1.IH" [OF _ p] "1.prems" have ih: "2 ^ (bit_length (n div 2) - 1) \<le> n div 2" by simp
    have b: "bit_length n = Suc (bit_length (n div 2))"
      using "1.prems" by (subst bit_length.simps) simp
    have pos: "0 < bit_length (n div 2)"
      using p by (subst bit_length.simps) simp
    then have "(2::int) ^ (bit_length n - 1) = 2 * 2 ^ (bit_length (n div 2) - 1)"
      unfolding b by (cases "bit_length (n div 2)") simp_all
    also have "\<dots> \<le> 2 * (n div 2)" using ih by simp
    also have "\<dots> \<le> n" by presburger
    finally show ?thesis .
  qed
qed

lemma round_half_even_bounds:
  "0 < b \<Longrightarrow> a div b \<le> round_half_even a b \<and> round_half_even a b \<le> a div b + 1"
  by (simp add: round_half_even_def Let_def)

lemma round_half_even_up:
  "round_half_even a b \<noteq> a div b \<Longrightarrow> round_half_even a b = a div b + 1 \<and> b \<le> 2 * (a mod b)"
  by (auto simp: round_half_even_def Let_def split: if_splits)

lemma round_half_even_exact: "0 < b \<Longrightarrow> b dvd a \<Longrightarrow> round_half_even a b = a div b"
  by (auto simp: round_half_even_def Let_def)


lemma div_between: "(s::int) * K \<le> a \<Longrightarrow> a < (s + 1) * K \<Longrightarrow> a div K = s"
proof -
  assume a: "s * K \<le> a" "a < (s + 1) * K"
  have "a = K * s + (a - s * K)" by (simp add: algebra_simps)
  moreover have "0 \<le> a - s * K" "a - s * K < K" using a by (simp_all add: algebra_simps)
  ultimately show ?thesis by (rule int_div_pos_eq)
qed

lemma scaled_div: "0 < d \<Longrightarrow> (n * 2 ^ k) div d div 2 ^ k = n div (d::int)"
proof -
  assume "0 < d"
  have "(n * 2 ^ k) div d div 2 ^ k = (n * 2 ^ k) div (d * 2 ^ k)"
    by (simp add: zdiv_zmult2_eq)
  then show ?thesis by simp
qed

lemma round_scaled_exact:
  assumes n: "0 \<le> n" and d: "0 < d" "d < 2 * 2 ^ k"
  shows "round_half_even (n * 2 ^ k) d div 2 ^ k = n div d"
proof (cases "round_half_even (n * 2 ^ k) d = (n * 2 ^ k) div d")
  case True
  then show ?thesis by (simp add: scaled_div [OF d(1)])
next
  case False
  define K :: int where "K = 2 ^ k"
  define s where "s = n div d"
  define r where "r = n mod d"
  define q' where "q' = (n * K) div d"
  define r' where "r' = (n * K) mod d"
  have K: "0 < K" by (simp add: K_def)
  from round_half_even_up [OF False]
  have m: "round_half_even (n * K) d = q' + 1" and half: "d \<le> 2 * r'"
    by (simp_all add: K_def q'_def r'_def)
  have n_eq: "n = s * d + r" and r: "0 \<le> r" "r < d"
    using d by (simp_all add: s_def r_def)
  have nK: "n * K = q' * d + r'" and r': "0 \<le> r'" "r' < d"
    using d by (simp_all add: q'_def r'_def)
  have qs: "q' div K = s"
    using scaled_div [OF d(1), of n k] by (simp add: q'_def s_def K_def)
  have lo: "s * K \<le> q'" and hi: "q' < (s + 1) * K"
  proof -
    have "q' = K * (q' div K) + q' mod K" by simp
    moreover have "0 \<le> q' mod K" "q' mod K < K" using K by simp_all
    ultimately show "s * K \<le> q'" "q' < (s + 1) * K"
      unfolding qs by (simp_all add: algebra_simps)
  qed
  have "q' + 1 < (s + 1) * K"
  proof (rule ccontr)
    assume "\<not> q' + 1 < (s + 1) * K"
    with hi have q: "q' = (s + 1) * K - 1" by simp
    define A where "A = s * d * K"
    define B where "B = r * K"
    define C where "C = d * K"
    have "n * K = A + B" by (simp add: n_eq A_def B_def algebra_simps)
    moreover have "q' * d = A + C - d" by (simp add: q A_def C_def algebra_simps)
    ultimately have 1: "B = C - d + r'" using nK by simp
    have "(d - r) * K = C - B" by (simp add: C_def B_def algebra_simps)
    moreover have "1 * K \<le> (d - r) * K"
      using r K by (intro mult_right_mono) simp_all
    ultimately have "K \<le> C - B" by simp
    with 1 half have "2 * K \<le> d" by simp
    with d(2) show False by (simp add: K_def)
  qed
  with lo have "(q' + 1) div K = s"
    by (intro div_between) simp_all
  then show ?thesis
    using m by (simp add: K_def s_def)
qed

lemma true_div_int_unfold:
  "n div d \<noteq> 0 \<Longrightarrow> e = bit_length (n div d) - 1 \<Longrightarrow>
   true_div_int n d =
     (if e \<le> 52 then round_half_even (n * 2 ^ (52 - e)) d div 2 ^ (52 - e)
      else round_half_even n (d * 2 ^ (e - 52)) * 2 ^ (e - 52))"
  by (simp add: true_div_int_def Let_def)

lemma true_div_int_exact:
  assumes "0 \<le> n" and "n < 2 ^ 34 * 1000000"
  shows "true_div_int n 1000000 = n div 1000000"
proof (cases "n div 1000000 = 0")
  case True
  then show ?thesis by (simp add: true_div_int_def)
next
  case False
  define e where "e = bit_length (n div 1000000) - 1"
  have "n div 1000000 < 2 ^ 34"
    using assms(2) by simp
  from bit_length_le [OF this] have e: "e \<le> 33" by (simp add: e_def)
  then have "(2::int) ^ 19 \<le> 2 ^ (52 - e)"
    by (intro power_increasing) simp_all
  then have "(1000000::int) < 2 * 2 ^ (52 - e)" by simp
  from round_scaled_exact [OF assms(1) _ this] e show ?thesis
    by (simp add: true_div_int_unfold [OF False e_def])
qed

lemma true_div_int_whole:
  assumes "0 \<le> n" and "1000000 dvd n" and "n < 2 ^ 53 * 1000000"
  shows "true_div_int n 1000000 = n div 1000000"
proof (cases "n div 1000000 = 0")
  case True
  then show ?thesis by (simp add: true_div_int_def)
next
  case False
  define e where "e = bit_length (n div 1000000) - 1"
  have "n div 1000000 < 2 ^ 53"
    using assms(3) by simp
  from bit_length_le [OF this] have e: "e \<le> 52" by (simp add: e_def)
  have "1000000 dvd n * 2 ^ (52 - e)" using assms(2) by simp
  then have "round_half_even (n * 2 ^ (52 - e)) 1000000 = (n * 2 ^ (52 - e)) div 1000000"
    by (intro round_half_even_exact) simp_all
  with e show ?thesis
    by (simp add: true_div_int_unfold [OF False e_def] scaled_div)
qed

lemma true_div_int_nonneg: "0 \<le> n \<Longrightarrow> 0 < d \<Longrightarrow> 0 \<le> true_div_int n d"
proof -
  assume n: "0 \<le> n" and d: "0 < d"
  have a: "0 \<le> round_half_even (n * 2 ^ k) d" for k
    using round_half_even_bounds [OF d, of "n * 2 ^ k"] n d
    by (meson mult_nonneg_nonneg order_trans pos_imp_zdiv_nonneg_iff zero_le_numeral zero_le_power)
  have b: "0 \<le> round_half_even n (d * 2 ^ j)" for j
  proof -
    have "0 < d * 2 ^ j" using d by simp
    from round_half_even_bounds [OF this, of n] n this show ?thesis
      by (meson order_trans pos_imp_zdiv_nonneg_iff)
  qed
  show ?thesis
    using a b by (simp add: true_div_int_def Let_def pos_imp_zdiv_nonneg_iff)
qed

lemma true_div_int_lower:
  assumes n: "0 \<le> n" and d: "0 < d"
  shows "min (n div d) (2 ^ 52) \<le> true_div_int n d"
proof (cases "n div d = 0")
  case True
  then show ?thesis by (simp add: true_div_int_def)
next
  case False
  define s where "s = n div d"
  define e where "e = bit_length (n div d) - 1"
  have s: "0 < s" using False n d unfolding s_def
    by (metis less_le pos_imp_zdiv_nonneg_iff)
  show ?thesis
  proof (cases "e \<le> 52")
    case True
    have "(n * 2 ^ (52 - e)) div d div 2 ^ (52 - e)
        \<le> round_half_even (n * 2 ^ (52 - e)) d div 2 ^ (52 - e)"
      using round_half_even_bounds [OF d, of "n * 2 ^ (52 - e)"]
      by (intro zdiv_mono1) simp_all
    then have "s \<le> round_half_even (n * 2 ^ (52 - e)) d div 2 ^ (52 - e)"
      by (simp add: scaled_div [OF d] s_def)
    with True show ?thesis
      by (simp add: true_div_int_unfold [OF False e_def] s_def)
  next
    case gt: False
    define j where "j = e - 52"
    define J :: int where "J = 2 ^ j"
    have J: "0 < J" by (simp add: J_def)
    have ej: "e = 52 + j" using gt by (simp add: j_def)
    have "2 ^ e \<le> s" using bit_length_lower [OF s] by (simp add: e_def s_def)
    then have "2 ^ 52 * J \<le> s" by (simp add: ej J_def power_add)
    then have "2 ^ 52 \<le> s div J"
      using J by (metis div_mult_self_is_m nonzero_mult_div_cancel_right zdiv_mono1 less_irrefl)
    moreover have "n div (d * J) = s div J"
      using J by (simp add: zdiv_zmult2_eq s_def)
    moreover have "n div (d * J) \<le> round_half_even n (d * J)"
      using round_half_even_bounds [of "d * J" n] d J by simp
    ultimately have m: "2 ^ 52 \<le> round_half_even n (d * J)" by simp
    have "2 ^ 52 * 1 \<le> round_half_even n (d * J) * J"
      using m J by (intro mult_mono) simp_all
    then have "min s (2 ^ 52) \<le> round_half_even n (d * 2 ^ (e - 52)) * 2 ^ (e - 52)"
      by (simp add: J_def j_def)
    with gt show ?thesis
      by (simp add: true_div_int_unfold [OF False e_def] s_def)
  qed
qed

lemma total_seconds_int_exact:
  assumes "\<bar>td\<bar> < 2 ^ 34 * 1000000 \<or> (1000000 dvd td \<and> \<bar>td\<bar> < 2 ^ 53 * 1000000)"
  shows "total_seconds_int td = (if 0 \<le> td then td div 1000000 else - ((- td) div 1000000))"
proof (cases "0 \<le> td")
  case True
  with assms show ?thesis
    by (auto simp: total_seconds_int_def true_div_int_exact true_div_int_whole)
next
  case False
  then have "0 \<le> - td" by simp
  with assms False show ?thesis
    by (auto simp: total_seconds_int_def true_div_int_exact true_div_int_whole)
qed

lemma true_div_int_within_one:
  assumes n: "0 \<le> n" and d: "0 < d" and small: "n div d < 2 ^ 53"
  shows "n div d \<le> true_div_int n d \<and> true_div_int n d \<le> n div d + 1"
proof (cases "n div d = 0")
  case True
  then show ?thesis by (simp add: true_div_int_def)
next
  case False
  define e where "e = bit_length (n div d) - 1"
  define K :: int where "K = 2 ^ (52 - e)"
  define q' where "q' = (n * K) div d"
  define m where "m = round_half_even (n * K) d"
  have K: "0 < K" by (simp add: K_def)
  from bit_length_le [OF small] have e: "e \<le> 52" by (simp add: e_def)
  have qs: "q' div K = n div d"
    using scaled_div [OF d, of n "52 - e"] by (simp add: q'_def K_def)
  have m: "q' \<le> m" "m \<le> q' + 1"
    using round_half_even_bounds [OF d, of "n * K"] by (simp_all add: m_def q'_def)
  have "q' = K * (q' div K) + q' mod K" by simp
  moreover have "q' mod K < K" using K by simp
  ultimately have "q' + 1 \<le> (n div d + 1) * K"
    unfolding qs by (simp add: algebra_simps)
  with m(2) have "m \<le> (n div d + 1) * K" by simp
  then have "m div K \<le> (n div d + 1) * K div K"
    using K by (intro zdiv_mono1) simp_all
  then have up: "m div K \<le> n div d + 1" using K by simp
  have "q' div K \<le> m div K"
    using m(1) K by (intro zdiv_mono1) simp_all
  with up qs e show ?thesis
    by (simp add: true_div_int_unfold [OF False e_def] m_def K_def)
qed

lemma seconds_exact:
  assumes "0 \<le> td"
    and "td < 2 ^ 34 * 1000000 \<or> (1000000 dvd td \<and> td < 2 ^ 53 * 1000000)"
  shows "max (total_seconds_int td) 0 = td div 1000000"
proof -
  have "total_seconds_int td = td div 1000000"
    using assms total_seconds_int_exact [of td] by auto
  moreover have "0 \<le> td div 1000000"
    using assms(1) by (simp add: pos_imp_zdiv_nonneg_iff)
  ultimately show ?thesis by simp
qed

lemma seconds_within_one:
  assumes "0 \<le> td" and "td < 2 ^ 53 * 1000000"
  shows "td div 1000000 \<le> max (total_seconds_int td) 0"
    and "max (total_seconds_int td) 0 \<le> td div 1000000 + 1"
proof -
  have "td div 1000000 < 2 ^ 53" using assms(2) by simp
  from true_div_int_within_one [OF assms(1) _ this]
  have "td div 1000000 \<le> total_seconds_int td" "total_seconds_int td \<le> td div 1000000 + 1"
    using assms(1) by (simp_all add: total_seconds_int_def)
  moreover have "0 \<le> td div 1000000"
    using assms(1) by (simp add: pos_imp_zdiv_nonneg_iff)
  ultimately show "td div 1000000 \<le> max (total_seconds_int td) 0"
    and "max (total_seconds_int td) 0 \<le> td div 1000000 + 1"
    by simp_all
qed

lemma total_seconds_int_le_iff:
  assumes "0 \<le> k" and "k < 2 ^ 34"
  shows "total_seconds_int td \<le> k \<longleftrightarrow> td div 1000000 \<le> k"
proof (cases "0 \<le> td")
  case False
  then have "0 \<le> true_div_int (- td) 1000000"
    by (intro true_div_int_nonneg) simp_all
  moreover from False have "td div 1000000 < 0"
    by (simp add: div_neg_pos_less0)
  ultimately show ?thesis
    using False assms by (simp add: total_seconds_int_def)
next
  case True
  show ?thesis
  proof (cases "td < 2 ^ 34 * 1000000")
    case small: True
    with True show ?thesis
      by (simp add: total_seconds_int_def true_div_int_exact)
  next
    case False
    then have big: "2 ^ 34 \<le> td div 1000000"
      by (simp add: pos_imp_zdiv_pos_iff zdiv_mono1 le_div_geq)
    from true_div_int_lower [OF True, of 1000000] big
    have "2 ^ 34 \<le> true_div_int td 1000000" by (simp add: min_def split: if_splits)
    with big True assms show ?thesis
      by (simp add: total_seconds_int_def)
  qed
qed

section \<open>The scan and the classification\<close>

lemma scan_eq:
  "scan now es (cur, up) =
     (if filter (is_current now) es = [] then cur else Some (last (filter (is_current now) es)),
      up @ filter (is_upcoming now) es)"
  by (induction es arbitrary: cur up) (auto simp: is_current_def is_upcoming_def)

lemma compute_display_state_eq:
  "compute_display_state schedule now =
     Inr (classify now
            (if filter (is_current now) schedule = [] then None
             else Some (last (filter (is_current now) schedule)))
            (if filter (is_upcoming now) schedule = [] then None
             else Some (filter (is_upcoming now) schedule ! 0))
            (if length (filter (is_upcoming now) schedule) > 1
             then Some (filter (is_upcoming now) schedule ! 1) else None))"
  by (simp add: compute_display_state_def scan_eq getitem_def)

lemma classify_current:
  "classify now (Some c) n f =
     \<lparr>mode = In_talk, current = Some c, next_event = n, following_event = f,
      seconds_to_start = None\<rparr>"
  by (simp add: classify_def)

lemma classify_none: "classify now None None f = none_state"
  by (simp add: classify_def)

lemma classify_next:
  "classify now None (Some n) f =
     \<lparr>mode = (if event_type n \<notin> {''break'', ''social''} \<and> total_seconds_int (start n - now) \<le> 300
              then Pre_start else Normal),
      current = None, next_event = Some n, following_event = f,
      seconds_to_start = Some (max (total_seconds_int (start n - now)) 0)\<rparr>"
  by (simp add: classify_def Let_def)

lemma classify_next_event:
  "cur \<noteq> None \<or> n \<noteq> None \<Longrightarrow> next_event (classify now cur n f) = n"
  by (cases cur; cases n) (simp_all add: classify_def Let_def)

lemma classify_following_event:
  "cur \<noteq> None \<or> n \<noteq> None \<Longrightarrow> following_event (classify now cur n f) = f"
  by (cases cur; cases n) (simp_all add: classify_def Let_def)

lemma classify_current_field: "current (classify now cur n f) = cur"
  by (cases cur; cases n) (simp_all add: classify_def Let_def none_state_def)

lemma last_current_unique:
  assumes "e \<in> set schedule" "is_current now e"
    and "\<forall>x\<in>set schedule. is_current now x \<longrightarrow> x = e"
  shows "filter (is_current now) schedule \<noteq> []"
    and "last (filter (is_current now) schedule) = e"
proof -
  show ne: "filter (is_current now) schedule \<noteq> []"
    using assms(1,2) by (auto simp: filter_empty_conv)
  from last_in_set [OF ne] have "last (filter (is_current now) schedule) \<in> set schedule"
    and "is_current now (last (filter (is_current now) schedule))" by auto
  with assms(3) show "last (filter (is_current now) schedule) = e" by blast
qed

lemma find_filter:
  "List.find P xs = Some n \<Longrightarrow> filter P xs \<noteq> [] \<and> filter P xs ! 0 = n"
  by (induction xs) (auto split: if_splits)

lemma filter_first:
  "\<forall>x\<in>set pre. \<not> P x \<Longrightarrow> P e \<Longrightarrow> filter P (pre @ e # post) = e # filter P post"
  by (simp add: filter_empty_conv [THEN iffD2])

lemma second_of_list:
  "(case xs of _ # y # _ \<Rightarrow> Some y | _ \<Rightarrow> None) = (if 1 < length xs then Some (xs ! 1) else None)"
  by (cases xs; cases "tl xs") auto

lemma find_holds: "List.find P xs = Some n \<Longrightarrow> P n"
  by (induction xs) (auto split: if_splits)

lemma first_of_filter:
  "List.find P xs = (if filter P xs = [] then None else Some (filter P xs ! 0))"
  by (induction xs) auto

lemma ceil_div_60: "\<lceil>real_of_int s / 60\<rceil> = (s + 59) div 60"
proof (rule ceiling_unique)
  define m where "m = (s + 59) div 60"
  define r where "r = (s + 59) mod 60"
  have eq: "s + 59 = 60 * m + r" by (simp add: m_def r_def)
  have r: "0 \<le> r" "r < 60" by (simp_all add: r_def)
  have "60 * m - 60 < s" "s \<le> 60 * m" using eq r by linarith+
  then have "real_of_int (60 * m - 60) < real_of_int s" "real_of_int s \<le> real_of_int (60 * m)"
    by (simp_all only: of_int_less_iff of_int_le_iff)
  then show "real_of_int ((s + 59) div 60) - 1 < real_of_int s / 60"
    and "real_of_int s / 60 \<le> real_of_int ((s + 59) div 60)"
    unfolding m_def [symmetric] by simp_all
qed

lemma minutes_positive: "0 < s \<Longrightarrow> 1 \<le> (s + 59) div (60::int)"
  using pos_imp_zdiv_pos_iff [of 60 "s + 59"] by simp

lemma digit_char_not_colon: "d < 10 \<Longrightarrow> digit_char d \<noteq> CHR '':''"
proof
  assume d: "d < 10" and "digit_char d = CHR '':''"
  then have "(of_char (char_of (48 + d) :: char) :: nat) = of_char CHR '':''"
    by (simp add: digit_char_def)
  with d show False by simp
qed

lemma decimal_no_colon: "CHR '':'' \<notin> set (decimal n)"
proof (induction n rule: decimal.induct)
  case (1 n)
  show ?case
  proof (cases "n < 10")
    case True
    then show ?thesis
      using digit_char_not_colon [of n] by (subst decimal.simps) auto
  next
    case False
    then show ?thesis
      using 1 digit_char_not_colon [of "n mod 10"] by (subst decimal.simps) auto
  qed
qed

lemma format_02d_no_colon: "filter (\<lambda>c. c = CHR '':'') (format_02d n) = []"
  using decimal_no_colon by (auto simp: format_02d_def Let_def filter_empty_conv)

lemma total_seconds_int_neg: "td < 0 \<Longrightarrow> total_seconds_int td \<le> 0"
  using true_div_int_nonneg [of "- td" 1000000] by (simp add: total_seconds_int_def)

lemma digit_chars:
  "digit_char 0 = CHR ''0''" "digit_char 1 = CHR ''1''" "digit_char 2 = CHR ''2''"
  "digit_char 3 = CHR ''3''" "digit_char 4 = CHR ''4''" "digit_char 5 = CHR ''5''"
  "digit_char 6 = CHR ''6''" "digit_char 7 = CHR ''7''" "digit_char 8 = CHR ''8''"
  "digit_char 9 = CHR ''9''" "digit_char (Suc 0) = CHR ''1''"
  by code_simp+

lemma format_02d_0: "format_02d 0 = ''00''"
  by code_simp

lemma scan_heap_run:
  assumes "schedule < length h" and "h ! schedule = PyList es"
    and "upcoming < length h" and "h ! upcoming = PyList us" and "upcoming \<noteq> schedule"
    and "\<forall>a\<in>set es. a < length h \<and> h ! a = Dict (ev a)"
    and "i \<le> length es"
  shows "scan_heap now schedule upcoming i cur h =
     Some (Inr (if filter (\<lambda>a. is_current now (ev a)) (drop i es) = [] then cur
                else Some (last (filter (\<lambda>a. is_current now (ev a)) (drop i es)))),
           h[upcoming := PyList (us @ filter (\<lambda>a. is_upcoming now (ev a)) (drop i es))])"
  using assms
proof (induction "length es - i" arbitrary: i cur us h)
  case 0
  then have i: "i = length es" by simp
  have "get_list h schedule = Inr es"
    using 0 by (simp add: get_list_def)
  moreover have "h[upcoming := PyList us] = h"
    using 0 by (metis list_update_id)
  ultimately show ?case
    using i by (subst scan_heap.simps) simp
next
  case (Suc k)
  then have i: "i < length es" by simp
  let ?a = "es ! i"
  have a: "?a \<in> set es" using i by simp
  have gl: "get_list h schedule = Inr es"
    using Suc.prems by (simp add: get_list_def)
  have gd: "get_dict h ?a = Inr (ev ?a)"
    using Suc.prems a by (simp add: get_dict_def)
  have ne: "upcoming \<noteq> schedule" "upcoming \<notin> set es"
    using Suc.prems by auto
  have dr: "drop i es = ?a # drop (Suc i) es"
    using i by (simp add: Cons_nth_drop_Suc)
  let ?h = "h[upcoming := PyList (us @ [?a])]"
  have la: "list_append h upcoming ?a = Inr ?h"
    using Suc.prems by (simp add: list_append_def get_list_def)
  have k: "k = length es - Suc i" using Suc.hyps(2) by simp
  show ?case
  proof (cases "is_upcoming now (ev ?a)")
    case True
    have pre: "schedule < length ?h" "?h ! schedule = PyList es" "upcoming < length ?h"
      "?h ! upcoming = PyList (us @ [?a])" "upcoming \<noteq> schedule"
      "\<forall>a\<in>set es. a < length ?h \<and> ?h ! a = Dict (ev a)" "Suc i \<le> length es"
      using Suc.prems ne i by (auto simp: nth_list_update)
    from Suc.hyps(1) [OF k pre] True gl gd la i
    show ?thesis
      by (subst scan_heap.simps) (auto simp: dr is_upcoming_def is_current_def)
  next
    case False
    have pre: "Suc i \<le> length es" using i by simp
    from Suc.hyps(1) [OF k Suc.prems(1-6) pre] False gl gd i
    show ?thesis
      by (subst scan_heap.simps) (auto simp: dr is_upcoming_def is_current_def)
  qed
qed

lemma classify_fields:
  "cur = None \<and> n = None \<longrightarrow> f = None \<Longrightarrow>
   classify now cur n f =
     \<lparr>mode = mode (classify now cur n f), current = cur, next_event = n, following_event = f,
      seconds_to_start = seconds_to_start (classify now cur n f)\<rparr>"
  by (cases cur; cases n) (simp_all add: classify_def Let_def none_state_def)

lemma classify_heap_run:
  assumes "get_list h upcoming = Inr us"
    and "\<forall>a\<in>set us. get_dict h a = Inr (ev a)"
  shows "classify_heap h upcoming now cur =
     Inr (let n = (if us = [] then None else Some (us ! 0));
              f = (if 1 < length us then Some (us ! 1) else None);
              p = classify now (map_option ev cur) (map_option ev n) (map_option ev f)
          in \<lparr>mode = mode p, current = cur, next_event = n, following_event = f,
               seconds_to_start = seconds_to_start p\<rparr>)"
proof (cases us)
  case Nil
  with assms(1) show ?thesis
    by (cases cur) (simp_all add: classify_heap_def classify_def none_state_def)
next
  case (Cons u us')
  then have "get_dict h u = Inr (ev u)" using assms(2) by simp
  with Cons assms(1) show ?thesis
    by (cases cur; cases us')
       (simp_all add: classify_heap_def classify_def getitem_def Let_def)
qed

lemma wf_scheduleD:
  assumes "wf_schedule h schedule es"
  shows "schedule < length h" and "h ! schedule = PyList es"
    and "\<forall>a\<in>set es. a < length h \<and> h ! a = Dict (the (deref h a))"
proof -
  from assms have g: "get_list h schedule = Inr es"
    and d: "\<forall>a\<in>set es. deref h a \<noteq> None"
    by (simp_all add: wf_schedule_def list_all_iff)
  from g show "schedule < length h" and "h ! schedule = PyList es"
    by (auto simp: get_list_def split: if_splits obj.splits)
  show "\<forall>a\<in>set es. a < length h \<and> h ! a = Dict (the (deref h a))"
  proof
    fix a assume "a \<in> set es"
    with d have "deref h a \<noteq> None" by blast
    then show "a < length h \<and> h ! a = Dict (the (deref h a))"
      by (auto simp: deref_def get_dict_def split: if_splits obj.splits)
  qed
qed

lemma compute_display_state_heap_run:
  assumes "wf_schedule h schedule es"
    and ev: "\<forall>a\<in>set es. deref h a = Some (ev a)"
  shows "compute_display_state_heap h schedule now =
     Some (Inr (expected_state ev now es),
           h @ [PyList (filter (\<lambda>a. is_upcoming now (ev a)) es)])"
proof -
  let ?h1 = "h @ [PyList []]"
  let ?us = "filter (\<lambda>a. is_upcoming now (ev a)) es"
  let ?cs = "filter (\<lambda>a. is_current now (ev a)) es"
  let ?h2 = "h @ [PyList ?us]"
  from wf_scheduleD [OF assms(1)] ev
  have s: "schedule < length h" "h ! schedule = PyList es"
    and d: "\<forall>a\<in>set es. a < length h \<and> h ! a = Dict (ev a)"
    by auto
  have pre: "schedule < length ?h1" "?h1 ! schedule = PyList es"
    "length h < length ?h1" "?h1 ! length h = PyList []" "length h \<noteq> schedule"
    "\<forall>a\<in>set es. a < length ?h1 \<and> ?h1 ! a = Dict (ev a)" "0 \<le> length es"
    using s d by (auto simp: nth_append)
  have run: "scan_heap now schedule (length h) 0 None ?h1 =
     Some (Inr (if ?cs = [] then None else Some (last ?cs)), ?h2)"
    using scan_heap_run [OF pre, of now None] by simp
  have gl: "get_list ?h2 (length h) = Inr ?us"
    by (simp add: get_list_def)
  have gd: "\<forall>a\<in>set ?us. get_dict ?h2 a = Inr (ev a)"
    using d by (auto simp: get_dict_def nth_append)
  show ?thesis
    unfolding compute_display_state_heap_def alloc_def
    by (simp add: run classify_heap_run [OF gl gd] expected_state_def Let_def)
qed

lemma wf_schedule_extend:
  assumes "wf_schedule h schedule es"
  shows "wf_schedule (h @ hs) schedule es"
    and "\<forall>a\<in>set es. deref (h @ hs) a = deref h a"
proof -
  from wf_scheduleD [OF assms]
  have s: "schedule < length h" "h ! schedule = PyList es"
    and d: "\<forall>a\<in>set es. a < length h \<and> h ! a = Dict (the (deref h a))"
    by auto
  show e: "\<forall>a\<in>set es. deref (h @ hs) a = deref h a"
    using d by (auto simp: deref_def get_dict_def nth_append)
  have "get_list (h @ hs) schedule = Inr es"
    using s by (simp add: get_list_def nth_append)
  moreover have "list_all (\<lambda>a. deref (h @ hs) a \<noteq> None) es"
    using assms e by (simp add: wf_schedule_def list_all_iff)
  ultimately show "wf_schedule (h @ hs) schedule es"
    by (simp add: wf_schedule_def)
qed

lemma map_filter_total:
  "\<forall>x\<in>set xs. f x = Some (g x) \<Longrightarrow> List.map_filter f xs = map g xs"
  by (induction xs) (simp_all add: List.map_filter_simps)

lemma compute_display_state_heap_refines:
  assumes "wf_schedule h schedule es"
    and "compute_display_state_heap h schedule now = Some (Inr r, h')"
  shows "compute_display_state (events_of h es) now = Inr (deref_state h r)"
proof -
  define ev where "ev a = the (deref h a)" for a
  let ?us = "filter (\<lambda>a. is_upcoming now (ev a)) es"
  let ?cs = "filter (\<lambda>a. is_current now (ev a)) es"
  let ?c = "if ?cs = [] then None else Some (last ?cs)"
  let ?n = "if ?us = [] then None else Some (?us ! 0)"
  let ?f = "if 1 < length ?us then Some (?us ! 1) else None"
  let ?p = "classify now (map_option ev ?c) (map_option ev ?n) (map_option ev ?f)"
  have ev: "\<forall>a\<in>set es. deref h a = Some (ev a)"
    using assms(1) by (auto simp: wf_schedule_def list_all_iff ev_def)
  have r: "r = expected_state ev now es"
    using compute_display_state_heap_run [OF assms(1) ev, of now] assms(2) by simp
  have evs: "events_of h es = map ev es"
    unfolding events_of_def by (rule map_filter_total [OF ev])
  have fc: "filter (is_current now) (map ev es) = map ev ?cs"
    and fu: "filter (is_upcoming now) (map ev es) = map ev ?us"
    by (simp_all add: filter_map comp_def)
  have pure: "compute_display_state (events_of h es) now = Inr ?p"
    unfolding evs compute_display_state_eq fc fu
    by (simp add: last_map)
  have inc: "?cs \<noteq> [] \<Longrightarrow> last ?cs \<in> set es"
    using last_in_set [of ?cs] by auto
  have inu: "i < length ?us \<Longrightarrow> ?us ! i \<in> set es" for i
    using nth_mem [of i ?us] by auto
  have b: "Option.bind ?c (deref h) = map_option ev ?c"
    "Option.bind ?n (deref h) = map_option ev ?n"
    "Option.bind ?f (deref h) = map_option ev ?f"
    using ev inc inu [of 0] inu [of 1] by auto
  have "deref_state h r =
      \<lparr>mode = mode ?p, current = map_option ev ?c, next_event = map_option ev ?n,
       following_event = map_option ev ?f, seconds_to_start = seconds_to_start ?p\<rparr>"
    unfolding r expected_state_def deref_state_def Let_def
    by (simp only: b display_state.simps)
  also have "\<dots> = ?p"
    by (rule classify_fields [symmetric]) auto
  finally show ?thesis
    using pure by simp
qed

lemma example_heap_run:
  "compute_display_state_heap example_heap 2 (seconds 33300) =
     Some (Inr \<lparr>mode = In_talk, current = Some 0, next_event = Some 1,
                following_event = None, seconds_to_start = None\<rparr>,
           example_heap @ [PyList [1]])"
  by (simp add: compute_display_state_heap_def alloc_def scan_heap.simps get_list_def
        get_dict_def list_append_def classify_heap_def getitem_def example_heap_def
        example_events)

section \<open>The claims\<close>

text \<open>
  C1. When exactly one event \<open>e\<close> of the schedule has \<open>start \<le> now < end\<close>, the
  function returns, with mode \<open>in_talk\<close>, \<open>current = e\<close> and no
  \<open>seconds_to_start\<close>, whatever the upcoming events are. The schedule need not even be
  sorted.
\<close>

theorem in_talk_when_one_event_current:
  assumes "e \<in> set schedule" and "start e \<le> now" and "now < endt e"
    and "\<forall>x\<in>set schedule. start x \<le> now \<and> now < endt x \<longrightarrow> x = e"
  shows "\<exists>r. compute_display_state schedule now = Inr r \<and> mode r = In_talk \<and>
             current r = Some e \<and> seconds_to_start r = None"
proof -
  have c: "is_current now e" using assms(2,3) by (simp add: is_current_def)
  have u: "\<forall>x\<in>set schedule. is_current now x \<longrightarrow> x = e"
    using assms(4) by (simp add: is_current_def)
  show ?thesis
    using last_current_unique [OF assms(1) c u]
    by (simp add: compute_display_state_eq classify_current)
qed

theorem in_talk_when_one_event_current_witness:
  "sorted_schedule [talk_0900, break_0930, talk_0945] \<and>
   talk_0900 \<in> set [talk_0900, break_0930, talk_0945] \<and>
   start talk_0900 \<le> seconds 33300 \<and> seconds 33300 < endt talk_0900 \<and>
   (\<exists>r. compute_display_state [talk_0900, break_0930, talk_0945] (seconds 33300) = Inr r \<and>
        mode r = In_talk \<and> current r = Some talk_0900 \<and> seconds_to_start r = None)"
  using in_talk_when_one_event_current [of talk_0900 "[talk_0900, break_0930, talk_0945]" "seconds 33300"]
  by (simp add: example_events sorted_schedule_def)

text \<open>
  C2. With no current event and \<open>n\<close> the first event that starts at \<open>now\<close> or later,
  the mode is \<open>pre_start\<close> exactly when the type of \<open>n\<close>, trimmed and lowercased, is
  neither \<open>break\<close> nor \<open>social\<close> and the whole seconds to its start are at most 300;
  otherwise the mode is \<open>normal\<close>.
\<close>

theorem pre_start_iff:
  assumes "\<forall>x\<in>set schedule. \<not> (start x \<le> now \<and> now < endt x)"
    and "List.find (\<lambda>x. now \<le> start x) schedule = Some n"
  shows "\<exists>r. compute_display_state schedule now = Inr r \<and>
             (mode r = Pre_start \<longleftrightarrow>
                event_type n \<noteq> ''break'' \<and> event_type n \<noteq> ''social'' \<and>
                total_seconds_int (start n - now) \<le> 300) \<and>
             (mode r \<noteq> Pre_start \<longrightarrow> mode r = Normal)"
proof -
  have c: "filter (is_current now) schedule = []"
    using assms(1) by (simp add: filter_empty_conv is_current_def)
  have "List.find (is_upcoming now) schedule = Some n"
    using assms(2) by (simp add: is_upcoming_def [abs_def])
  from find_filter [OF this]
  show ?thesis
    by (simp add: compute_display_state_eq c classify_next)
qed

theorem pre_start_iff_witness:
  "(\<exists>r. compute_display_state [talk_0900, talk_0945] (seconds 34800) = Inr r \<and>
        mode r = Pre_start) \<and>
   (\<exists>r. compute_display_state [talk_0900, talk_0945] (seconds 34799) = Inr r \<and>
        mode r = Normal) \<and>
   (\<exists>r. compute_display_state [talk_0900, talk_0945, late_break] (seconds 37380) = Inr r \<and>
        mode r = Normal)"
proof (intro conjI)
  have a1: "\<forall>x\<in>set [talk_0900, talk_0945]. \<not> (start x \<le> seconds 34800 \<and> seconds 34800 < endt x)"
    by (simp add: example_events)
  have a2: "List.find (\<lambda>x. seconds 34800 \<le> start x) [talk_0900, talk_0945] = Some talk_0945"
    by (simp add: example_events)
  have a3: "total_seconds_int (start talk_0945 - seconds 34800) = 300"
    by code_simp
  from pre_start_iff [OF a1 a2]
  show "\<exists>r. compute_display_state [talk_0900, talk_0945] (seconds 34800) = Inr r \<and>
        mode r = Pre_start"
    by (auto simp: example_types a3)
  have b1: "\<forall>x\<in>set [talk_0900, talk_0945]. \<not> (start x \<le> seconds 34799 \<and> seconds 34799 < endt x)"
    by (simp add: example_events)
  have b2: "List.find (\<lambda>x. seconds 34799 \<le> start x) [talk_0900, talk_0945] = Some talk_0945"
    by (simp add: example_events)
  have b3: "total_seconds_int (start talk_0945 - seconds 34799) = 301"
    by code_simp
  from pre_start_iff [OF b1 b2]
  show "\<exists>r. compute_display_state [talk_0900, talk_0945] (seconds 34799) = Inr r \<and>
        mode r = Normal"
    by (auto simp: example_types b3)
  have c1: "\<forall>x\<in>set [talk_0900, talk_0945, late_break].
      \<not> (start x \<le> seconds 37380 \<and> seconds 37380 < endt x)"
    by (simp add: example_events)
  have c2: "List.find (\<lambda>x. seconds 37380 \<le> start x) [talk_0900, talk_0945, late_break]
      = Some late_break"
    by (simp add: example_events)
  from pre_start_iff [OF c1 c2]
  show "\<exists>r. compute_display_state [talk_0900, talk_0945, late_break] (seconds 37380) = Inr r \<and>
        mode r = Normal"
    by (auto simp: example_types)
qed

text \<open>
  C3. When two or more events have \<open>start \<le> now < end\<close>, \<open>current\<close> is the last of
  them in the order of the schedule.
\<close>

theorem overlapping_last_wins:
  assumes "2 \<le> length (filter (\<lambda>x. start x \<le> now \<and> now < endt x) schedule)"
  shows "\<exists>r. compute_display_state schedule now = Inr r \<and> mode r = In_talk \<and>
             current r = Some (last (filter (\<lambda>x. start x \<le> now \<and> now < endt x) schedule))"
proof -
  have "filter (is_current now) schedule \<noteq> []"
    using assms by (auto simp: is_current_def [abs_def])
  then show ?thesis
    by (simp add: compute_display_state_eq classify_current is_current_def [abs_def])
qed

theorem overlapping_last_wins_witness:
  "sorted_schedule [talk_0900, panel_0910, talk_0945] \<and>
   2 \<le> length (filter (\<lambda>x. start x \<le> seconds 33300 \<and> seconds 33300 < endt x)
                  [talk_0900, panel_0910, talk_0945]) \<and>
   (\<exists>r. compute_display_state [talk_0900, panel_0910, talk_0945] (seconds 33300) = Inr r \<and>
        mode r = In_talk \<and> current r = Some panel_0910 \<and> current r \<noteq> Some talk_0900)"
proof -
  have f: "filter (\<lambda>x. start x \<le> seconds 33300 \<and> seconds 33300 < endt x)
             [talk_0900, panel_0910, talk_0945] = [talk_0900, panel_0910]"
    by (simp add: example_events)
  have ne: "panel_0910 \<noteq> talk_0900"
    by (simp add: example_events)
  have so: "sorted_schedule [talk_0900, panel_0910, talk_0945]"
    by (simp add: example_events sorted_schedule_def)
  from overlapping_last_wins [of "seconds 33300" "[talk_0900, panel_0910, talk_0945]"] ne so
  show ?thesis
    unfolding f by auto
qed

text \<open>
  C4. The function returns a state on every schedule and every \<open>now\<close> (no subscript is
  out of range); on the empty schedule, and whenever no event is current and none starts
  at \<open>now\<close> or later, the state has mode \<open>none\<close> and every other field empty.
\<close>

theorem compute_display_state_total:
  "(\<exists>r. compute_display_state schedule now = Inr r) \<and>
   compute_display_state [] now =
     Inr \<lparr>mode = Mode_none, current = None, next_event = None, following_event = None,
          seconds_to_start = None\<rparr> \<and>
   ((\<forall>x\<in>set schedule. \<not> (start x \<le> now \<and> now < endt x) \<and> \<not> now \<le> start x) \<longrightarrow>
    compute_display_state schedule now =
     Inr \<lparr>mode = Mode_none, current = None, next_event = None, following_event = None,
          seconds_to_start = None\<rparr>)"
proof (intro conjI impI)
  show "\<exists>r. compute_display_state schedule now = Inr r"
    by (simp add: compute_display_state_eq)
  show "compute_display_state [] now =
     Inr \<lparr>mode = Mode_none, current = None, next_event = None, following_event = None,
          seconds_to_start = None\<rparr>"
    by (simp add: compute_display_state_eq classify_none none_state_def)
  assume a: "\<forall>x\<in>set schedule. \<not> (start x \<le> now \<and> now < endt x) \<and> \<not> now \<le> start x"
  have "filter (is_current now) schedule = []" "filter (is_upcoming now) schedule = []"
    using a by (simp_all add: filter_empty_conv is_current_def is_upcoming_def)
  then show "compute_display_state schedule now =
     Inr \<lparr>mode = Mode_none, current = None, next_event = None, following_event = None,
          seconds_to_start = None\<rparr>"
    by (simp add: compute_display_state_eq classify_none none_state_def)
qed

theorem compute_display_state_total_witness:
  "filter (\<lambda>x. (start x \<le> seconds 35400 \<and> seconds 35400 < endt x) \<or> seconds 35400 \<le> start x)
      [talk_0900, break_0930] = [] \<and>
   compute_display_state [talk_0900, break_0930] (seconds 35400) =
     Inr \<lparr>mode = Mode_none, current = None, next_event = None, following_event = None,
          seconds_to_start = None\<rparr>"
  using compute_display_state_total [of "[talk_0900, break_0930]" "seconds 35400"]
  by (simp add: example_events)

text \<open>
  C5. An event \<open>e\<close> with \<open>end \<le> start\<close> is never returned as \<open>current\<close>, on any
  schedule and at any time. It is appended to the upcoming list whenever it starts at
  \<open>now\<close> or later; as the first such event of the schedule it is \<open>next_event\<close>, as
  the second it is \<open>following_event\<close>.
\<close>

theorem degenerate_event_never_current:
  assumes "endt e \<le> start e"
  shows "(\<forall>r. compute_display_state schedule now = Inr r \<longrightarrow> current r \<noteq> Some e) \<and>
         (e \<in> set schedule \<and> now \<le> start e \<longrightarrow>
            e \<in> set (snd (scan now schedule (None, [])))) \<and>
         ((\<forall>x\<in>set pre. start x < now) \<and> now \<le> start e \<longrightarrow>
            (\<exists>r. compute_display_state (pre @ e # post) now = Inr r \<and>
                 next_event r = Some e)) \<and>
         ((\<forall>x\<in>set (pre @ mid). start x < now) \<and> now \<le> start f \<and> now \<le> start e \<longrightarrow>
            (\<exists>r. compute_display_state (pre @ f # mid @ e # post) now = Inr r \<and>
                 following_event r = Some e))"
proof (intro conjI allI impI)
  fix r
  assume r: "compute_display_state schedule now = Inr r"
  have nc: "\<not> is_current now e"
    using assms by (simp add: is_current_def)
  show "current r \<noteq> Some e"
  proof
    assume "current r = Some e"
    with r have ne: "filter (is_current now) schedule \<noteq> []"
      and "last (filter (is_current now) schedule) = e"
      by (auto simp: compute_display_state_eq classify_current_field split: if_splits)
    with last_in_set [OF ne] have "is_current now e" by auto
    with nc show False ..
  qed
next
  assume "e \<in> set schedule \<and> now \<le> start e"
  then show "e \<in> set (snd (scan now schedule (None, [])))"
    by (simp add: scan_eq is_upcoming_def)
next
  assume a: "(\<forall>x\<in>set pre. start x < now) \<and> now \<le> start e"
  then have "filter (is_upcoming now) (pre @ e # post) = e # filter (is_upcoming now) post"
    by (intro filter_first) (auto simp: is_upcoming_def)
  then show "\<exists>r. compute_display_state (pre @ e # post) now = Inr r \<and> next_event r = Some e"
    by (simp add: compute_display_state_eq classify_next_event)
next
  assume a: "(\<forall>x\<in>set (pre @ mid). start x < now) \<and> now \<le> start f \<and> now \<le> start e"
  then have "filter (is_upcoming now) (mid @ e # post) = e # filter (is_upcoming now) post"
    by (intro filter_first) (auto simp: is_upcoming_def ball_Un)
  moreover from a
  have "filter (is_upcoming now) (pre @ f # (mid @ e # post))
          = f # filter (is_upcoming now) (mid @ e # post)"
    by (intro filter_first) (auto simp: is_upcoming_def ball_Un)
  ultimately
  have "filter (is_upcoming now) (pre @ f # mid @ e # post)
          = f # e # filter (is_upcoming now) post"
    by simp
  then show "\<exists>r. compute_display_state (pre @ f # mid @ e # post) now = Inr r \<and>
                 following_event r = Some e"
    by (simp add: compute_display_state_eq classify_following_event)
qed

theorem degenerate_event_never_current_witness:
  "endt zero_talk \<le> start zero_talk \<and> endt negative_talk \<le> start negative_talk \<and>
   (\<exists>r. compute_display_state [talk_0900, zero_talk, negative_talk] (seconds 35100) = Inr r \<and>
        current r \<noteq> Some zero_talk \<and> next_event r = Some zero_talk \<and>
        following_event r = Some negative_talk)"
proof -
  have d: "endt zero_talk \<le> start zero_talk" "endt negative_talk \<le> start negative_talk"
    by (simp_all add: degenerate_events)
  have p: "\<forall>x\<in>set [talk_0900]. start x < seconds 35100"
    "\<forall>x\<in>set ([talk_0900] @ []). start x < seconds 35100"
    "seconds 35100 \<le> start zero_talk" "seconds 35100 \<le> start negative_talk"
    by (simp_all add: degenerate_events example_events)
  let ?s = "[talk_0900, zero_talk, negative_talk]"
  from degenerate_event_never_current [OF d(1),
      where schedule = ?s and now = "seconds 35100"
        and pre = "[talk_0900]" and post = "[negative_talk]" and mid = "[]" and f = zero_talk] p
  have z: "\<forall>r. compute_display_state ?s (seconds 35100) = Inr r \<longrightarrow> current r \<noteq> Some zero_talk"
    and "\<exists>r. compute_display_state ?s (seconds 35100) = Inr r \<and> next_event r = Some zero_talk"
    by simp_all
  then obtain r where r: "compute_display_state ?s (seconds 35100) = Inr r"
    and n: "next_event r = Some zero_talk"
    by blast
  from degenerate_event_never_current [OF d(2),
      where schedule = ?s and now = "seconds 35100" and pre = "[talk_0900]" and f = zero_talk
        and mid = "[]" and post = "[]"] p
  have "\<exists>r. compute_display_state ?s (seconds 35100) = Inr r \<and>
      following_event r = Some negative_talk"
    by simp
  with r have "following_event r = Some negative_talk" by auto
  with z r n d show ?thesis by auto
qed

text \<open>
  The fields of every returned state, with \<open>seconds_to_start\<close> as the code computes
  it: the truncated float, not below zero.
\<close>

lemma mode_fields:
  assumes "compute_display_state schedule now = Inr r"
  shows "(mode r = Pre_start \<or> mode r = Normal \<longrightarrow>
            current r = None \<and>
            (\<exists>n. List.find (\<lambda>x. now \<le> start x) schedule = Some n \<and>
                 next_event r = Some n \<and>
                 seconds_to_start r = Some (max (total_seconds_int (start n - now)) 0)) \<and>
            following_event r =
              (case filter (\<lambda>x. now \<le> start x) schedule of
                 _ # y # _ \<Rightarrow> Some y | _ \<Rightarrow> None)) \<and>
         (mode r = In_talk \<or> mode r = Mode_none \<longrightarrow> seconds_to_start r = None) \<and>
         (mode r = Mode_none \<longrightarrow>
            current r = None \<and> next_event r = None \<and> following_event r = None)"
proof -
  let ?c = "filter (is_current now) schedule"
  let ?u = "filter (is_upcoming now) schedule"
  have u: "filter (\<lambda>x. now \<le> start x) schedule = ?u"
    and f: "List.find (\<lambda>x. now \<le> start x) schedule = List.find (is_upcoming now) schedule"
    by (simp_all add: is_upcoming_def [abs_def])
  consider (talk) "?c \<noteq> []" | (none) "?c = []" "?u = []" | (nxt) "?c = []" "?u \<noteq> []"
    by blast
  then show ?thesis
  proof cases
    case talk
    with assms show ?thesis
      by (auto simp: compute_display_state_eq classify_current)
  next
    case none
    with assms show ?thesis
      by (auto simp: compute_display_state_eq classify_none none_state_def)
  next
    case nxt
    with assms show ?thesis
      unfolding u f second_of_list first_of_filter
      by (auto simp: compute_display_state_eq classify_next split: if_splits)
  qed
qed

text \<open>
  C6, as stated, fails: from \<^verbatim>\<open>datetime.min\<close> to an event that starts at
  \<^verbatim>\<open>datetime.max\<close> there are 315537897599 whole seconds (and 999999 microseconds),
  and \<open>seconds_to_start\<close> is 315537897600, since the float nearest to the span is the
  next whole number.
\<close>

theorem mode_field_invariant_counterexample:
  "compute_display_state [far_event] 0 =
     Inr \<lparr>mode = Normal, current = None, next_event = Some far_event,
          following_event = None, seconds_to_start = Some 315537897600\<rparr> \<and>
   (start far_event - 0) div 1000000 = 315537897599"
proof -
  have t: "total_seconds_int 315537897599999999 = 315537897600"
    by code_simp
  have ty: "event_type far_event = ''talk''"
    by code_simp
  have st: "start far_event = 315537897599999999"
    by (simp add: far_event_def)
  have "classify 0 None (Some far_event) None =
     \<lparr>mode = Normal, current = None, next_event = Some far_event,
      following_event = None, seconds_to_start = Some 315537897600\<rparr>"
    by (simp add: classify_next ty st t)
  moreover have "compute_display_state [far_event] 0 =
      Inr (classify 0 None (Some far_event) None)"
    by (simp add: compute_display_state_def getitem_def st)
  ultimately show ?thesis
    by (simp add: st)
qed

text \<open>
  C6, amended. Every returned state obeys the invariant of its mode. In \<open>pre_start\<close>
  and \<open>normal\<close>: no current event, \<open>next_event\<close> the first event starting at
  \<open>now\<close> or later, \<open>following_event\<close> the second one if there is one, and
  \<open>seconds_to_start\<close> the truncated float of the seconds to the start of
  \<open>next_event\<close>. That is the whole-second difference whenever the difference is below
  \<open>2^34\<close> seconds or a whole number of seconds, and never below it nor more than one
  second above it (for differences below \<open>2^53\<close> seconds, which all differences of
  datetimes are). In \<open>in_talk\<close> and \<open>none\<close>: no \<open>seconds_to_start\<close>. In
  \<open>none\<close>: no event at all.
\<close>

theorem mode_field_invariant:
  assumes "compute_display_state schedule now = Inr r"
  shows "(mode r = Pre_start \<or> mode r = Normal \<longrightarrow>
            current r = None \<and>
            (\<exists>n. List.find (\<lambda>x. now \<le> start x) schedule = Some n \<and>
                 next_event r = Some n \<and>
                 seconds_to_start r = Some (max (total_seconds_int (start n - now)) 0) \<and>
                 (start n - now < 2 ^ 34 * 1000000 \<or>
                  (1000000 dvd (start n - now) \<and> start n - now < 2 ^ 53 * 1000000) \<longrightarrow>
                    seconds_to_start r = Some ((start n - now) div 1000000)) \<and>
                 (start n - now < 2 ^ 53 * 1000000 \<longrightarrow>
                    (\<exists>s. seconds_to_start r = Some s \<and>
                         (start n - now) div 1000000 \<le> s \<and>
                         s \<le> (start n - now) div 1000000 + 1))) \<and>
            following_event r =
              (case filter (\<lambda>x. now \<le> start x) schedule of
                 _ # y # _ \<Rightarrow> Some y | _ \<Rightarrow> None)) \<and>
         (mode r = In_talk \<or> mode r = Mode_none \<longrightarrow> seconds_to_start r = None) \<and>
         (mode r = Mode_none \<longrightarrow>
            current r = None \<and> next_event r = None \<and> following_event r = None)"
proof (intro conjI impI)
  note f = mode_fields [OF assms]
  show "seconds_to_start r = None" if "mode r = In_talk \<or> mode r = Mode_none"
    using f that by blast
  show "current r = None" "next_event r = None" "following_event r = None"
    if "mode r = Mode_none"
    using f that by blast+
  assume m: "mode r = Pre_start \<or> mode r = Normal"
  with f show "current r = None" by blast
  from f m show "following_event r =
      (case filter (\<lambda>x. now \<le> start x) schedule of _ # y # _ \<Rightarrow> Some y | _ \<Rightarrow> None)"
    by blast
  from f m obtain n where n: "List.find (\<lambda>x. now \<le> start x) schedule = Some n"
    "next_event r = Some n"
    "seconds_to_start r = Some (max (total_seconds_int (start n - now)) 0)"
    by blast
  from find_holds [OF n(1)] have d: "0 \<le> start n - now" by simp
  have "start n - now < 2 ^ 34 * 1000000 \<or>
        (1000000 dvd (start n - now) \<and> start n - now < 2 ^ 53 * 1000000) \<longrightarrow>
          seconds_to_start r = Some ((start n - now) div 1000000)"
    using seconds_exact [OF d] n(3) by simp
  moreover have "start n - now < 2 ^ 53 * 1000000 \<longrightarrow>
      (\<exists>s. seconds_to_start r = Some s \<and> (start n - now) div 1000000 \<le> s \<and>
           s \<le> (start n - now) div 1000000 + 1)"
    using seconds_within_one [OF d] n(3) by simp
  ultimately show "\<exists>n. List.find (\<lambda>x. now \<le> start x) schedule = Some n \<and>
      next_event r = Some n \<and>
      seconds_to_start r = Some (max (total_seconds_int (start n - now)) 0) \<and>
      (start n - now < 2 ^ 34 * 1000000 \<or>
       (1000000 dvd (start n - now) \<and> start n - now < 2 ^ 53 * 1000000) \<longrightarrow>
         seconds_to_start r = Some ((start n - now) div 1000000)) \<and>
      (start n - now < 2 ^ 53 * 1000000 \<longrightarrow>
         (\<exists>s. seconds_to_start r = Some s \<and> (start n - now) div 1000000 \<le> s \<and>
              s \<le> (start n - now) div 1000000 + 1))"
    using n by blast
qed

theorem mode_field_invariant_witness:
  "\<exists>r. compute_display_state [talk_0900, talk_0945, late_break] (seconds 34800) = Inr r \<and>
       mode r = Pre_start \<and> current r = None \<and> next_event r = Some talk_0945 \<and>
       following_event r = Some late_break \<and> seconds_to_start r = Some 300 \<and>
       (start talk_0945 - seconds 34800) div 1000000 = 300"
proof -
  have m: "compute_display_state [talk_0900, talk_0945, late_break] (seconds 34800) =
      Inr (classify (seconds 34800) None (Some talk_0945) (Some late_break))"
    by (simp add: compute_display_state_def getitem_def example_events)
  have s: "total_seconds_int (start talk_0945 - seconds 34800) = 300"
    by code_simp
  have c: "mode (classify (seconds 34800) None (Some talk_0945) (Some late_break)) = Pre_start"
    by (simp add: classify_next example_types s)
  have f: "List.find (\<lambda>x. seconds 34800 \<le> start x) [talk_0900, talk_0945, late_break]
      = Some talk_0945"
    "filter (\<lambda>x. seconds 34800 \<le> start x) [talk_0900, talk_0945, late_break]
      = [talk_0945, late_break]"
    by (simp_all add: example_events)
  have d: "start talk_0945 - seconds 34800 = 300000000"
    by (simp add: example_events)
  from mode_field_invariant [OF m] c
  show ?thesis
    unfolding f by (simp add: m d s [unfolded d])
qed

text \<open>
  C7. The minute warning is the ceiling of the remaining seconds over 60: 299 seconds give
  5, 240 give 4, 1 gives 1 and 0 gives 0; it is at least 1 whenever seconds remain.
\<close>

theorem minute_warning_rounds_up:
  "minutes_remaining (Some 299) = 5 \<and> minutes_remaining (Some 240) = 4 \<and>
   minutes_remaining (Some 1) = 1 \<and> minutes_remaining (Some 0) = 0 \<and>
   (0 \<le> s \<longrightarrow> minutes_remaining (Some s) = \<lceil>real_of_int s / 60\<rceil>) \<and>
   (0 < s \<longrightarrow> 1 \<le> minutes_remaining (Some s))"
  by (simp add: ceil_div_60 minutes_remaining_def Let_def minutes_positive)

theorem minute_warning_rounds_up_witness:
  "minutes_remaining (Some 61) = \<lceil>real_of_int 61 / 60\<rceil> \<and> minutes_remaining (Some 61) = 2 \<and>
   (1::int) \<le> minutes_remaining (Some 61)"
  using minute_warning_rounds_up [of 61]
  by (simp add: minutes_remaining_def)

text \<open>
  C8. \<open>format_timedelta\<close> yields \<open>00:00\<close> for 0 seconds, \<open>01:05\<close> for 65,
  \<open>01:01:01\<close> for 3661 and \<open>00:00\<close> for every negative duration. Below one hour the
  text has the two fields minutes and seconds and one colon; from one hour on it has the
  three fields hours, minutes and seconds and two colons.
\<close>

theorem format_timedelta_clamps_and_omits_hours:
  "format_timedelta (seconds 0) = ''00:00'' \<and>
   format_timedelta (seconds 65) = ''01:05'' \<and>
   format_timedelta (seconds 3661) = ''01:01:01'' \<and>
   (td < 0 \<longrightarrow> format_timedelta td = ''00:00'') \<and>
   (total_seconds_int td < 3600 \<longrightarrow>
      format_timedelta td =
        format_02d (max (total_seconds_int td) 0 div 60) @ '':'' @
        format_02d (max (total_seconds_int td) 0 mod 60)) \<and>
   (3600 \<le> total_seconds_int td \<longrightarrow>
      format_timedelta td =
        format_02d (total_seconds_int td div 3600) @ '':'' @
        format_02d (total_seconds_int td mod 3600 div 60) @ '':'' @
        format_02d (total_seconds_int td mod 60)) \<and>
   length (filter (\<lambda>c. c = CHR '':'') (format_timedelta td)) =
     (if total_seconds_int td < 3600 then 1 else 2)"
proof (intro conjI impI)
  show "format_timedelta (seconds 0) = ''00:00''" by code_simp
  show "format_timedelta (seconds 65) = ''01:05''" by code_simp
  show "format_timedelta (seconds 3661) = ''01:01:01''" by code_simp
  show "format_timedelta td = ''00:00''" if "td < 0"
    using total_seconds_int_neg [OF that]
    by (auto simp: format_timedelta_def Let_def format_02d_0)
  show "format_timedelta td =
        format_02d (max (total_seconds_int td) 0 div 60) @ '':'' @
        format_02d (max (total_seconds_int td) 0 mod 60)"
    if "total_seconds_int td < 3600"
    using that by (auto simp: format_timedelta_def Let_def max_def format_02d_0)
  have m: "t mod 3600 mod 60 = t mod 60" for t :: int
    by (simp add: mod_mod_cancel)
  show "format_timedelta td =
        format_02d (total_seconds_int td div 3600) @ '':'' @
        format_02d (total_seconds_int td mod 3600 div 60) @ '':'' @
        format_02d (total_seconds_int td mod 60)"
    if "3600 \<le> total_seconds_int td"
    using that by (auto simp: format_timedelta_def Let_def m)
  show "length (filter (\<lambda>c. c = CHR '':'') (format_timedelta td)) =
     (if total_seconds_int td < 3600 then 1 else 2)"
    by (auto simp: format_timedelta_def Let_def format_02d_no_colon)
qed

theorem format_timedelta_clamps_and_omits_hours_witness:
  "format_timedelta (- 1500000) = ''00:00'' \<and>
   format_timedelta (seconds 3599) = ''59:59'' \<and>
   format_timedelta (seconds 3600) = ''01:00:00'' \<and>
   format_timedelta (seconds 360000) = ''100:00:00'' \<and>
   format_timedelta 17179869184999999 = ''4772185:53:05''"
proof -
  have a: "total_seconds_int (seconds 3599) = 3599" "total_seconds_int (seconds 3600) = 3600"
    "total_seconds_int (seconds 360000) = 360000"
    "total_seconds_int 17179869184999999 = 17179869185"
    by code_simp+
  have b: "format_02d 59 = ''59''" "format_02d 1 = ''01''" "format_02d 0 = ''00''"
    "format_02d 100 = ''100''" "format_02d 53 = ''53''" "format_02d 5 = ''05''"
    by code_simp+
  have c: "format_02d 4772185 = ''4772185''"
    by (simp add: format_02d_def decimal.simps digit_chars)
  show ?thesis
    using format_timedelta_clamps_and_omits_hours [of "- 1500000"]
      format_timedelta_clamps_and_omits_hours [of "seconds 3599"]
      format_timedelta_clamps_and_omits_hours [of "seconds 3600"]
      format_timedelta_clamps_and_omits_hours [of "seconds 360000"]
      format_timedelta_clamps_and_omits_hours [of 17179869184999999]
    by (simp add: a b c)
qed

text \<open>
  C9. On every heap with a well-formed schedule the call returns a state and leaves every
  object that was there before as it was: the only write goes to the list it has created
  itself. So the schedule list and every event of it are unchanged, and a second call
  with the same arguments, on the heap the first call left, returns the same state (the
  same mode and seconds, and the same event objects).
\<close>

theorem compute_display_state_heap_idempotent:
  assumes "wf_schedule h schedule es"
  shows "\<exists>r h' h''.
           compute_display_state_heap h schedule now = Some (Inr r, h') \<and>
           compute_display_state_heap h' schedule now = Some (Inr r, h'') \<and>
           take (length h) h' = h \<and> take (length h) h'' = h \<and>
           get_list h' schedule = get_list h schedule \<and>
           map (deref h') es = map (deref h) es"
proof -
  define ev where "ev a = the (deref h a)" for a
  let ?us = "filter (\<lambda>a. is_upcoming now (ev a)) es"
  let ?h' = "h @ [PyList ?us]"
  have ev: "\<forall>a\<in>set es. deref h a = Some (ev a)"
    using assms by (auto simp: wf_schedule_def list_all_iff ev_def)
  have first: "compute_display_state_heap h schedule now =
      Some (Inr (expected_state ev now es), ?h')"
    by (rule compute_display_state_heap_run [OF assms ev])
  have wf': "wf_schedule ?h' schedule es"
    and same: "\<forall>a\<in>set es. deref ?h' a = deref h a"
    using wf_schedule_extend [OF assms, of "[PyList ?us]"] by auto
  from same ev have ev': "\<forall>a\<in>set es. deref ?h' a = Some (ev a)" by simp
  have second: "compute_display_state_heap ?h' schedule now =
      Some (Inr (expected_state ev now es), ?h' @ [PyList ?us])"
    by (rule compute_display_state_heap_run [OF wf' ev'])
  have gl: "get_list ?h' schedule = get_list h schedule"
    using wf' assms by (simp add: wf_schedule_def)
  have "map (deref ?h') es = map (deref h) es"
    using same by simp
  with first second gl show ?thesis
    by (intro exI [of _ "expected_state ev now es"] exI [of _ ?h']
          exI [of _ "?h' @ [PyList ?us]"]) simp
qed

theorem compute_display_state_heap_idempotent_witness:
  "wf_schedule example_heap 2 [0, 1] \<and>
   (\<exists>r h' h''.
      compute_display_state_heap example_heap 2 (seconds 33300) = Some (Inr r, h') \<and>
      compute_display_state_heap h' 2 (seconds 33300) = Some (Inr r, h'') \<and>
      take (length example_heap) h' = example_heap \<and>
      take (length example_heap) h'' = example_heap \<and>
      current r = Some 0 \<and> next_event r = Some 1 \<and>
      h' = example_heap @ [PyList [1]])"
proof -
  have wf: "wf_schedule example_heap 2 [0, 1]"
    by (simp add: wf_schedule_def get_list_def deref_def get_dict_def example_heap_def)
  from compute_display_state_heap_idempotent [OF wf, of "seconds 33300"]
  obtain r h' h'' where
    a: "compute_display_state_heap example_heap 2 (seconds 33300) = Some (Inr r, h')"
    and b: "compute_display_state_heap h' 2 (seconds 33300) = Some (Inr r, h'')"
    and c: "take (length example_heap) h' = example_heap"
      "take (length example_heap) h'' = example_heap"
    by blast
  from a have "current r = Some 0" "next_event r = Some 1" "h' = example_heap @ [PyList [1]]"
    unfolding example_heap_run by auto
  with wf a b c show ?thesis by blast
qed



end
